theory Spec2Isabelle
  imports Main "HOL-Library.Word"
begin

unbundle bit_operations_syntax

section \<open>Machine integers of rangeutil.hh\<close>

text \<open>
  The header uses the decompiler's integer typedefs: \<open>uintb\<close>, the unsigned 8-byte
  integer in which all range boundaries are kept, and \<open>int4\<close>, the signed 4-byte
  integer of the step. Mixed arithmetic such as \<open>val + step\<close> converts the
  \<open>int4\<close> to \<open>uintb\<close> by sign extension (\<open>scast\<close>) and wraps modulo \<open>2 ^ 64\<close>.
\<close>

type_synonym uintb = "64 word"
type_synonym int4 = "32 word"

section \<open>CircleRange\<close>

text \<open>
  The fields of \<open>class CircleRange\<close>. The field \<open>mask\<close> is called \<open>mask_cr\<close>
  here, since \<open>mask\<close> is already the library's constant for \<open>2 ^ n - 1\<close>.
\<close>

record CircleRange =
  left :: uintb
  right :: uintb
  mask_cr :: uintb
  isempty :: bool
  step :: int4

definition isEmpty :: "CircleRange \<Rightarrow> bool" where
  "isEmpty r = isempty r"

definition isFull :: "CircleRange \<Rightarrow> bool" where
  "isFull r = ((\<not> isempty r) \<and> (step r = 1) \<and> (left r = right r))"

definition isSingle :: "CircleRange \<Rightarrow> bool" where
  "isSingle r = ((\<not> isempty r) \<and> (right r = ((left r + scast (step r)) AND mask_cr r)))"

definition getMin :: "CircleRange \<Rightarrow> uintb" where
  "getMin r = left r"

definition getMax :: "CircleRange \<Rightarrow> uintb" where
  "getMax r = (right r - scast (step r)) AND mask_cr r"

definition getEnd :: "CircleRange \<Rightarrow> uintb" where
  "getEnd r = right r"

definition getMask :: "CircleRange \<Rightarrow> uintb" where
  "getMask r = mask_cr r"

definition getStep :: "CircleRange \<Rightarrow> int4" where
  "getStep r = step r"

text \<open>
  \<open>getNext\<close> takes \<open>val\<close> by reference: the model returns the new \<open>val\<close> together
  with the boolean result.
\<close>

definition getNext :: "CircleRange \<Rightarrow> uintb \<Rightarrow> uintb \<times> bool" where
  "getNext r val = (let val' = (val + scast (step r)) AND mask_cr r in (val', val' \<noteq> right r))"

text \<open>\<open>operator==\<close>, with its two early returns.\<close>

definition equals :: "CircleRange \<Rightarrow> CircleRange \<Rightarrow> bool" where
  "equals r op2 =
     (if isempty r \<noteq> isempty op2 then False
      else if isempty r then True
      else (left r = left op2) \<and> (right r = right op2) \<and> (mask_cr r = mask_cr op2)
           \<and> (step r = step op2))"

text \<open>
  \<open>encodeRangeOverlaps\<close>. The table \<open>arrange\<close> is a static member whose initialiser is
  not in the header, so it is a parameter here. An index outside the table, undefined
  behaviour in the source, is \<open>None\<close>.
\<close>

definition encodeRangeOverlaps ::
  "char list \<Rightarrow> uintb \<Rightarrow> uintb \<Rightarrow> uintb \<Rightarrow> uintb \<Rightarrow> char option" where
  "encodeRangeOverlaps arrange op1left op1right op2left op2right =
     (let val = (if op1left \<le> op1right then 0x20 else 0) :: int4;
          val = val OR (if op1left \<le> op2left then 0x10 else 0);
          val = val OR (if op1left \<le> op2right then 0x8 else 0);
          val = val OR (if op1right \<le> op2left then 4 else 0);
          val = val OR (if op1right \<le> op2right then 2 else 0);
          val = val OR (if op2left \<le> op2right then 1 else 0)
      in if 0 \<le> sint val \<and> nat (sint val) < length arrange
         then Some (arrange ! nat (sint val)) else None)"

text \<open>
  The iteration protocol documented at the head of the class:
  \<^verbatim>\<open>val = range.getMin(); do { ... } while (range.getNext(val));\<close>
  \<open>iterate r fuel val\<close> runs the do-while loop from \<open>val\<close> and returns the values for
  which the body ran, in order; every run of the body costs one unit of fuel, and
  \<open>None\<close> means that the fuel did not suffice.
\<close>

fun iterate :: "CircleRange \<Rightarrow> nat \<Rightarrow> uintb \<Rightarrow> uintb list option" where
  "iterate r 0 val = None"
| "iterate r (Suc fuel) val =
     (case getNext r val of
        (val', again) \<Rightarrow>
          if again then map_option ((#) val) (iterate r fuel val') else Some [val])"

definition protocol :: "CircleRange \<Rightarrow> nat \<Rightarrow> uintb list option" where
  "protocol r fuel = iterate r fuel (getMin r)"

text \<open>The value of \<open>val\<close> after \<open>k\<close> calls of \<open>getNext\<close>, starting at \<open>val\<close>.\<close>

definition valueAfter :: "CircleRange \<Rightarrow> nat \<Rightarrow> uintb \<Rightarrow> uintb" where
  "valueAfter r k val = ((\<lambda>v. fst (getNext r v)) ^^ k) val"

text \<open>
  The invariants that the data model of the design places on a range: \<open>mask\<close> is
  \<open>2 ^ n - 1\<close>, \<open>step\<close> is a positive power of two \<open>2 ^ k\<close> that is at most
  \<open>mask + 1\<close>, both boundaries lie below \<open>2 ^ n\<close>, and the step divides
  \<open>(right - left) mod 2 ^ n\<close>. The constructors and \<open>setRange\<close> are not part of the
  header; the invariants are hypotheses of the theorems that need them.
\<close>

definition wellformed :: "nat \<Rightarrow> nat \<Rightarrow> CircleRange \<Rightarrow> bool" where
  "wellformed n k r \<longleftrightarrow>
     n \<le> 64 \<and> k \<le> n \<and> k \<le> 30 \<and> mask_cr r = 2 ^ n - 1 \<and> step r = 2 ^ k \<and>
     uint (left r) < 2 ^ n \<and> uint (right r) < 2 ^ n \<and>
     2 ^ k dvd (uint (right r) - uint (left r)) mod 2 ^ n"

text \<open>
  Modelled from the spec: the set of values that a range stands for, which the header
  leaves to the implementation file. The specification gives it as the \<open>v\<close> of the
  integers modulo \<open>mask + 1\<close> that are congruent to \<open>left\<close> modulo \<open>step\<close> and lie in
  the half-open interval \<open>[left, right)\<close>, which wraps past the modulus when
  \<open>right \<le> left\<close>; an empty range has no element.
\<close>

definition member :: "CircleRange \<Rightarrow> uintb \<Rightarrow> bool" where
  "member r v \<longleftrightarrow>
     \<not> isempty r \<and> v \<le> mask_cr r \<and>
     unat v mod nat (sint (step r)) = unat (left r) mod nat (sint (step r)) \<and>
     (if left r < right r then left r \<le> v \<and> v < right r else left r \<le> v \<or> v < right r)"

text \<open>
  Modelled from the spec: the number of elements of a range, in closed form; on a
  well-formed range it is the number of values that satisfy \<open>member\<close> (lemma
  \<open>cardinality_card\<close> below).
\<close>

definition cardinality :: "CircleRange \<Rightarrow> nat" where
  "cardinality r =
     (if isempty r then 0
      else if left r < right r
        then (unat (right r) - unat (left r)) div nat (sint (step r))
        else (unat (mask_cr r) + 1 - (unat (left r) - unat (right r))) div nat (sint (step r)))"

text \<open>
  Modelled from the spec: the body of \<open>getSize\<close>, which the header only declares
  (\<open>uintb getSize(void) const\<close>). The specification gives \<open>getSize\<close> as the cardinality
  of the range; the model returns it in the declared result type.
\<close>

definition getSize :: "CircleRange \<Rightarrow> uintb" where
  "getSize r = of_nat (cardinality r)"

section \<open>ValueSet nodes and Partitions\<close>

text \<open>
  \<open>ValueSet\<close> objects live in a store indexed by address, and a \<open>ValueSet *\<close> is an
  optional address, \<open>None\<close> being the null pointer. \<open>Varnode *\<close> and \<open>Partition *\<close>
  are opaque optional addresses and \<open>OpCode\<close> is an opaque number: their declarations
  are outside this header and no function modelled here looks at them. Every address
  holds an object, so the only pointer that cannot be dereferenced is the null pointer.
  The fields \<open>range\<close> and \<open>count\<close> carry a suffix that keeps them apart from library
  names.
\<close>

type_synonym addr = nat

record Equation =
  slot :: int4
  range_eq :: CircleRange

record ValueSet =
  typeCode :: int4
  vn :: "addr option"
  opCode :: nat
  numParams :: int4
  range_vs :: CircleRange
  count_vs :: int4
  equations :: "Equation list"
  partHead :: "addr option"
  "next" :: "addr option"

record Partition =
  startNode :: "addr option"
  stopNode :: "addr option"
  isDirty :: bool

type_synonym store = "addr \<Rightarrow> ValueSet"

text \<open>Writing through a null pointer is undefined behaviour; the model makes it a fault.\<close>

datatype fault = NullDereference

text \<open>
  \<open>partitionPrepend(ValueSet *vertex, Partition &part)\<close>. The partition is passed by
  reference: the model returns the updated store and the updated partition.
\<close>

definition partitionPrepend_vertex ::
  "store \<Rightarrow> addr option \<Rightarrow> Partition \<Rightarrow> fault + store \<times> Partition" where
  "partitionPrepend_vertex h vertex part =
     (case vertex of
        None \<Rightarrow> Inl NullDereference
      | Some v \<Rightarrow>
          let h = h(v := (h v)\<lparr>next := startNode part\<rparr>);
              part = part\<lparr>startNode := Some v\<rparr>;
              part = (if stopNode part = None then part\<lparr>stopNode := Some v\<rparr> else part)
          in Inr (h, part))"

text \<open>
  \<open>partitionPrepend(const Partition &head, Partition &part)\<close>. \<open>head\<close> is only read, and
  every read of it comes before a write to the same field of \<open>part\<close>, so passing it by
  value is faithful also when both references name the same object.
\<close>

definition partitionPrepend_head ::
  "store \<Rightarrow> Partition \<Rightarrow> Partition \<Rightarrow> fault + store \<times> Partition" where
  "partitionPrepend_head h head part =
     (case stopNode head of
        None \<Rightarrow> Inl NullDereference
      | Some s \<Rightarrow>
          let h = h(s := (h s)\<lparr>next := startNode part\<rparr>);
              part = part\<lparr>startNode := startNode head\<rparr>;
              part = (if stopNode part = None then part\<lparr>stopNode := stopNode head\<rparr> else part)
          in Inr (h, part))"

text \<open>
  \<open>chain h p as q\<close>: following the \<open>next\<close> fields from the pointer \<open>p\<close> visits exactly
  the nodes \<open>as\<close>, in this order, and then arrives at the pointer \<open>q\<close>.
\<close>

fun chain :: "store \<Rightarrow> addr option \<Rightarrow> addr list \<Rightarrow> addr option \<Rightarrow> bool" where
  "chain h p [] q = (p = q)"
| "chain h p (a # as) q = (p = Some a \<and> chain h (next (h a)) as q)"

text \<open>A node with every field cleared, from which concrete stores are built.\<close>

definition blank :: ValueSet where
  "blank = \<lparr>typeCode = 0, vn = None, opCode = 0, numParams = 0,
            range_vs = \<lparr>left = 0, right = 0, mask_cr = 0, isempty = True, step = 0\<rparr>,
            count_vs = 0, equations = [], partHead = None, next = None\<rparr>"

section \<open>Simple queries\<close>

text \<open>
  C5. \<open>isFull\<close> holds exactly for a range that is not empty, has step 1 and whose left
  boundary equals its right boundary.
\<close>

theorem isFull_iff:
  "isFull r = ((\<not> isEmpty r) \<and> getStep r = 1 \<and> getMin r = getEnd r)"
  by (simp add: isFull_def isEmpty_def getStep_def getMin_def getEnd_def)

text \<open>
  C6. \<open>isSingle\<close> holds exactly for a range that is not empty and whose right boundary
  is \<open>(left + step) & mask\<close>, the step being sign-extended to the width of the
  boundaries.
\<close>

theorem isSingle_iff:
  "isSingle r = ((\<not> isEmpty r) \<and> getEnd r = (getMin r + scast (getStep r)) AND getMask r)"
  by (simp add: isSingle_def isEmpty_def getStep_def getMin_def getEnd_def getMask_def)

text \<open>
  C8. \<open>A == B\<close> is true when both ranges are empty, whatever their other fields are;
  false when exactly one of them is empty; and for two non-empty ranges it is true
  exactly when left, right, mask and step agree.
\<close>

theorem equals_cases:
  "(isempty a \<and> isempty b \<longrightarrow> equals a b) \<and>
   (isempty a \<noteq> isempty b \<longrightarrow> \<not> equals a b) \<and>
   (\<not> isempty a \<and> \<not> isempty b \<longrightarrow>
      equals a b = (left a = left b \<and> right a = right b \<and> mask_cr a = mask_cr b
                    \<and> step a = step b))"
  by (simp add: equals_def)

theorem equals_cases_witness:
  "equals \<lparr>left = 1, right = 2, mask_cr = 255, isempty = True, step = 1\<rparr>
          \<lparr>left = 7, right = 3, mask_cr = 65535, isempty = True, step = 4\<rparr> \<and>
   \<not> equals \<lparr>left = 1, right = 2, mask_cr = 255, isempty = True, step = 1\<rparr>
            \<lparr>left = 1, right = 2, mask_cr = 255, isempty = False, step = 1\<rparr> \<and>
   equals \<lparr>left = 1, right = 2, mask_cr = 255, isempty = False, step = 1\<rparr>
          \<lparr>left = 1, right = 2, mask_cr = 255, isempty = False, step = 1\<rparr> \<and>
   \<not> equals \<lparr>left = 1, right = 2, mask_cr = 255, isempty = False, step = 1\<rparr>
            \<lparr>left = 1, right = 3, mask_cr = 255, isempty = False, step = 1\<rparr>"
  using
    equals_cases [of "\<lparr>left = 1, right = 2, mask_cr = 255, isempty = True, step = 1\<rparr>"
                     "\<lparr>left = 7, right = 3, mask_cr = 65535, isempty = True, step = 4\<rparr>"]
    equals_cases [of "\<lparr>left = 1, right = 2, mask_cr = 255, isempty = True, step = 1\<rparr>"
                     "\<lparr>left = 1, right = 2, mask_cr = 255, isempty = False, step = 1\<rparr>"]
    equals_cases [of "\<lparr>left = 1, right = 2, mask_cr = 255, isempty = False, step = 1\<rparr>"
                     "\<lparr>left = 1, right = 2, mask_cr = 255, isempty = False, step = 1\<rparr>"]
    equals_cases [of "\<lparr>left = 1, right = 2, mask_cr = 255, isempty = False, step = 1\<rparr>"
                     "\<lparr>left = 1, right = 3, mask_cr = 255, isempty = False, step = 1\<rparr>"]
  by simp

section \<open>The overlap code\<close>

text \<open>
  C2. Given a table that has the 64 entries, \<open>encodeRangeOverlaps\<close> returns the entry
  whose index is the six-bit number made of the comparisons \<open>l \<le> r\<close> (worth 32),
  \<open>l \<le> l'\<close> (16), \<open>l \<le> r'\<close> (8), \<open>r \<le> l'\<close> (4), \<open>r \<le> r'\<close> (2) and \<open>l' \<le> r'\<close> (1).
\<close>

theorem encodeRangeOverlaps_index:
  assumes "64 \<le> length arrange"
  shows "encodeRangeOverlaps arrange l r l' r' =
     Some (arrange ! (32 * of_bool (l \<le> r) + 16 * of_bool (l \<le> l') + 8 * of_bool (l \<le> r')
                      + 4 * of_bool (r \<le> l') + 2 * of_bool (r \<le> r') + of_bool (l' \<le> r')))"
proof -
  have "arrange \<noteq> []" using assms by auto
  with assms show ?thesis
    unfolding encodeRangeOverlaps_def Let_def
    by (cases "l \<le> r"; cases "l \<le> l'"; cases "l \<le> r'"; cases "r \<le> l'";
        cases "r \<le> r'"; cases "l' \<le> r'"; simp add: numeral_3_eq_3)
qed

text \<open>
  On a table of 64 entries that agrees with the overlap scenario of the specification,
  the ranges \<open>[2, 8)\<close> and \<open>[5, 12)\<close> have index \<open>0x3B\<close> and category \<open>b\<close>.
\<close>

theorem encodeRangeOverlaps_index_witness:
  "64 \<le> length ''gcgbegdagggggggeggggcgbggggggggcdfgggggggegdggggbgggfggggcgbegda'' \<and>
   encodeRangeOverlaps ''gcgbegdagggggggeggggcgbggggggggcdfgggggggegdggggbgggfggggcgbegda''
     2 8 5 12 = Some (CHR ''b'')"
  using encodeRangeOverlaps_index
    [of "''gcgbegdagggggggeggggcgbggggggggcdfgggggggegdggggbgggfggggcgbegda''" 2 8 5 12]
  by simp

section \<open>Arithmetic of one step\<close>

text \<open>
  With \<open>mask = 2 ^ n - 1\<close>, masking is reduction modulo \<open>2 ^ n\<close>, and the wrap-around
  of the 64-bit addition disappears in it because \<open>2 ^ n\<close> divides \<open>2 ^ 64\<close>.
\<close>

lemma uint_and_pow_mask:
  fixes w :: uintb
  shows "uint (w AND (2 ^ n - 1)) = uint w mod 2 ^ n"
proof -
  have "uint (w AND (2 ^ n - 1)) = uint (take_bit n w)"
    by (simp only: take_bit_eq_mask mask_eq_decr_exp)
  also have "\<dots> = take_bit n (uint w)"
    by (rule unsigned_take_bit_eq)
  also have "\<dots> = uint w mod 2 ^ n"
    by (rule take_bit_eq_mod)
  finally show ?thesis .
qed

lemma uint_pow_mask:
  assumes "n \<le> 64"
  shows "uint ((2 ^ n - 1) :: uintb) + 1 = 2 ^ n"
proof -
  have "uint ((2 ^ n - 1) :: uintb) = uint (mask n :: uintb)"
    by (simp only: mask_eq_decr_exp)
  also have "\<dots> = mask (min 64 n)"
    by (simp add: uint_mask_eq)
  also have "\<dots> = (mask n :: int)"
    using assms by (simp add: min_def)
  also have "\<dots> = 2 ^ n - 1"
    by (rule mask_eq_exp_minus_1)
  finally show ?thesis by simp
qed

lemma uint_add_scast:
  fixes w :: uintb and s :: int4
  shows "uint (w + scast s) = (uint w + sint s) mod 2 ^ 64"
proof -
  have "w + scast s = word_of_int (uint w + sint s)"
    by simp
  then show ?thesis
    by (simp only: uint_word_of_int_eq take_bit_eq_mod) simp
qed

lemma uint_sub_scast:
  fixes w :: uintb and s :: int4
  shows "uint (w - scast s) = (uint w - sint s) mod 2 ^ 64"
proof -
  have "w - scast s = word_of_int (uint w - sint s)"
    by simp
  then show ?thesis
    by (simp only: uint_word_of_int_eq take_bit_eq_mod) simp
qed

lemma uint_getNext:
  assumes "mask_cr r = 2 ^ n - 1" "n \<le> 64"
  shows "uint (fst (getNext r val)) = (uint val + sint (step r)) mod 2 ^ n"
proof -
  have d: "(2::int) ^ n dvd 2 ^ 64"
    using assms(2) by (rule le_imp_power_dvd)
  have "uint (fst (getNext r val)) = ((uint val + sint (step r)) mod 2 ^ 64) mod 2 ^ n"
    using assms(1) by (simp only: getNext_def Let_def fst_conv uint_and_pow_mask uint_add_scast)
  also have "\<dots> = (uint val + sint (step r)) mod 2 ^ n"
    using d by (rule mod_mod_cancel)
  finally show ?thesis .
qed

lemma uint_getMax:
  assumes "mask_cr r = 2 ^ n - 1" "n \<le> 64"
  shows "uint (getMax r) = (uint (right r) - sint (step r)) mod 2 ^ n"
proof -
  have d: "(2::int) ^ n dvd 2 ^ 64"
    using assms(2) by (rule le_imp_power_dvd)
  have "uint (getMax r) = ((uint (right r) - sint (step r)) mod 2 ^ 64) mod 2 ^ n"
    using assms(1) by (simp only: getMax_def uint_and_pow_mask uint_sub_scast)
  also have "\<dots> = (uint (right r) - sint (step r)) mod 2 ^ n"
    using d by (rule mod_mod_cancel)
  finally show ?thesis .
qed

lemma snd_getNext: "snd (getNext r val) = (fst (getNext r val) \<noteq> right r)"
  by (simp add: getNext_def Let_def)

section \<open>The iteration protocol\<close>

lemma valueAfter_0: "valueAfter r 0 val = val"
  by (simp add: valueAfter_def)

lemma valueAfter_Suc: "valueAfter r (Suc k) val = valueAfter r k (fst (getNext r val))"
  by (simp add: valueAfter_def funpow_Suc_right del: funpow.simps)

lemma iterate_Suc:
  "iterate r (Suc fuel) val =
     (if fst (getNext r val) = right r then Some [val]
      else map_option ((#) val) (iterate r fuel (fst (getNext r val))))"
  using snd_getNext [of r val] by (cases "getNext r val") simp

text \<open>
  The loop returns the values \<open>vs\<close> exactly when \<open>vs\<close> lists the successive values of
  \<open>val\<close> and the value that follows the last of them is the first one equal to
  \<open>right\<close>.
\<close>

lemma iterate_char:
  "iterate r fuel val = Some vs \<longleftrightarrow>
     vs \<noteq> [] \<and> length vs \<le> fuel \<and>
     (\<forall>i<length vs. vs ! i = valueAfter r i val) \<and>
     (\<forall>i<length vs. (valueAfter r (Suc i) val = right r) = (Suc i = length vs))"
proof (induction fuel arbitrary: val vs)
  case 0
  then show ?case by simp
next
  case (Suc fuel)
  let ?v = "fst (getNext r val)"
  show ?case
  proof (cases vs)
    case Nil
    then show ?thesis by (simp add: iterate_Suc del: iterate.simps)
  next
    case (Cons x xs)
    show ?thesis
    proof (cases "?v = right r")
      case True
      then show ?thesis
        unfolding Cons
        by (cases xs) (auto simp add: iterate_Suc All_less_Suc2 valueAfter_0 valueAfter_Suc simp del: iterate.simps)
    next
      case False
      have "(iterate r (Suc fuel) val = Some (x # xs)) = (x = val \<and> iterate r fuel ?v = Some xs)"
        using False by (auto simp add: iterate_Suc simp del: iterate.simps)
      also have "\<dots> = (x = val \<and> xs \<noteq> [] \<and> length xs \<le> fuel \<and>
         (\<forall>i<length xs. xs ! i = valueAfter r i ?v) \<and>
         (\<forall>i<length xs. (valueAfter r (Suc i) ?v = right r) = (Suc i = length xs)))"
        by (simp only: Suc.IH)
      finally show ?thesis
        unfolding Cons using False
        by (auto simp add: All_less_Suc2 valueAfter_0 valueAfter_Suc)
    qed
  qed
qed

lemma iterate_isempty:
  "iterate (r\<lparr>isempty := e\<rparr>) fuel val = iterate r fuel val"
proof (induction fuel arbitrary: val)
  case 0
  then show ?case by simp
next
  case (Suc fuel)
  have "getNext (r\<lparr>isempty := e\<rparr>) val = getNext r val"
    by (simp add: getNext_def)
  then show ?case by (simp add: Suc.IH split: prod.splits)
qed

text \<open>
  C1. When \<open>mask\<close> is \<open>2 ^ n - 1\<close>, as the data model has it, \<open>getNext\<close> advances
  \<open>val\<close> to \<open>(val + step) mod (mask + 1)\<close> and returns true exactly when the advanced
  value differs from \<open>right\<close>. Hence the protocol started at \<open>getMin\<close> returns, after
  running the body for the values \<open>vs\<close>, exactly when \<open>vs\<close> are the successive values of
  \<open>val\<close> and \<open>val\<close> reaches \<open>right\<close> for the first time after the last of them.
\<close>

theorem getNext_protocol:
  assumes "mask_cr r = 2 ^ n - 1" and "n \<le> 64"
  shows "uint (fst (getNext r val)) = (uint val + sint (step r)) mod (uint (mask_cr r) + 1) \<and>
         snd (getNext r val) = (fst (getNext r val) \<noteq> right r) \<and>
         (protocol r fuel = Some vs \<longleftrightarrow>
            vs \<noteq> [] \<and> length vs \<le> fuel \<and>
            (\<forall>i<length vs. vs ! i = valueAfter r i (getMin r)) \<and>
            (\<forall>i<length vs. (valueAfter r (Suc i) (getMin r) = right r) = (Suc i = length vs)))"
proof -
  have M: "uint (mask_cr r) + 1 = 2 ^ n"
    using uint_pow_mask [OF assms(2)] assms(1) by simp
  have "uint (fst (getNext r val)) = (uint val + sint (step r)) mod (uint (mask_cr r) + 1)"
    using uint_getNext [OF assms] by (simp only: M)
  then show ?thesis
    by (simp only: snd_getNext protocol_def iterate_char simp_thms)
qed

theorem getNext_protocol_witness:
  "mask_cr \<lparr>left = 0, right = 3, mask_cr = 255, isempty = False, step = 1\<rparr> = 2 ^ 8 - 1 \<and>
   uint (fst (getNext \<lparr>left = 0, right = 3, mask_cr = 255, isempty = False, step = 1\<rparr> 255)) = 0 \<and>
   snd (getNext \<lparr>left = 0, right = 3, mask_cr = 255, isempty = False, step = 1\<rparr> 255) \<and>
   protocol \<lparr>left = 0, right = 3, mask_cr = 255, isempty = False, step = 1\<rparr> 5 = Some [0, 1, 2] \<and>
   valueAfter \<lparr>left = 0, right = 3, mask_cr = 255, isempty = False, step = 1\<rparr> 3 0 = 3"
proof -
  let ?r = "\<lparr>left = 0, right = 3, mask_cr = 255, isempty = False, step = 1\<rparr>"
  have m: "mask_cr ?r = 2 ^ 8 - 1" by simp
  have n: "(8::nat) \<le> 64" by simp
  have p: "protocol ?r 5 = Some [0, 1, 2]" by code_simp
  note t = getNext_protocol [OF m n, of 255 5 "[0, 1, 2]"]
  from t have "uint (fst (getNext ?r 255)) = 0" by simp
  moreover from t have "snd (getNext ?r 255)" by (simp add: getNext_def)
  moreover from t p have "\<forall>i<length [0, 1, 2::uintb].
      (valueAfter ?r (Suc i) (getMin ?r) = right ?r) = (Suc i = length [0, 1, 2::uintb])"
    by blast
  from this [rule_format, of 2] have "valueAfter ?r 3 0 = 3"
    by (simp add: getMin_def numeral_3_eq_3)
  ultimately show ?thesis using m p by simp
qed

section \<open>Counting the steps around the circle\<close>

text \<open>
  Stepping by \<open>S\<close> modulo \<open>S * m\<close>: two positions less than \<open>m\<close> steps apart
  differ, the positions repeat with period \<open>m\<close>, and the position \<open>R\<close> is hit exactly at
  the step numbers congruent to \<open>((R - L) mod (S * m)) div S\<close>.
\<close>

lemma step_inj:
  fixes S m L i j :: nat
  assumes S: "0 < S" and ij: "i \<le> j" "j < i + m"
    and eq: "(L + i * S) mod (S * m) = (L + j * S) mod (S * m)"
  shows "i = j"
proof -
  have le: "L + i * S \<le> L + j * S"
    using ij(1) by simp
  have "S * m dvd (L + j * S) - (L + i * S)"
    using mod_eq_dvd_iff_nat [OF le] eq by metis
  then have d: "S * m dvd (j - i) * S"
    by (simp add: diff_mult_distrib)
  have "(j - i) * S < S * m"
    using S ij by simp
  with d have "(j - i) * S = 0"
    using nat_dvd_not_less [of "(j - i) * S" "S * m"] by auto
  with S ij show ?thesis by simp
qed

lemma step_period:
  fixes S m L j :: nat
  shows "(L + j * S) mod (S * m) = (L + (j mod m) * S) mod (S * m)"
proof -
  have "L + j * S = L + (j mod m) * S + (j div m) * (S * m)"
    by (simp add: algebra_simps flip: distrib_left)
  then show ?thesis
    by (simp only: mod_mult_self1)
qed

lemma step_hit:
  fixes S m L R j :: nat
  assumes S: "0 < S" and m: "0 < m" and L: "L < S * m" and R: "R < S * m"
    and dv: "S dvd (R + S * m - L)"
  shows "(L + j * S) mod (S * m) = R \<longleftrightarrow> j mod m = ((R + S * m - L) mod (S * m)) div S"
proof -
  let ?M = "S * m"
  let ?D = "(R + ?M - L) mod ?M"
  let ?d = "?D div S"
  have "S dvd ?D"
    using dv by (simp add: dvd_mod_iff)
  then have D: "?d * S = ?D" by simp
  have dm: "?d < m"
  proof -
    have "?D < S * m" using S m by simp
    then have "?d * S < m * S" using D by (simp add: mult.commute)
    then show ?thesis by simp
  qed
  have hitd: "(L + ?d * S) mod ?M = R"
  proof -
    have "(L + ?d * S) mod ?M = (L + ?D) mod ?M" by (simp only: D)
    also have "\<dots> = (L + (R + ?M - L)) mod ?M" by (rule mod_add_right_eq)
    also have "\<dots> = (R + ?M) mod ?M" using L by simp
    also have "\<dots> = R" using R by simp
    finally show ?thesis .
  qed
  show ?thesis
  proof
    assume h: "(L + j * S) mod ?M = R"
    let ?e = "j mod m"
    have em: "?e < m" using m by simp
    have e: "(L + ?e * S) mod ?M = (L + ?d * S) mod ?M"
      using h hitd step_period [of L j S m] by simp
    show "?e = ?d"
    proof (cases "?e \<le> ?d")
      case True
      then show ?thesis using step_inj [OF S True _ e] dm by simp
    next
      case False
      then have "?d \<le> ?e" by simp
      then show ?thesis using step_inj [OF S _ _ e [symmetric]] em by simp
    qed
  next
    assume "j mod m = ?d"
    then show "(L + j * S) mod ?M = R"
      using hitd step_period [of L j S m] by simp
  qed
qed

lemma wrap_diff_less:
  fixes L R M :: nat
  assumes "L < R" "R < M"
  shows "(R + M - L) mod M = R - L"
proof -
  have "R + M - L = (R - L) + M" using assms by simp
  then have "(R + M - L) mod M = (R - L) mod M" by simp
  then show ?thesis using assms by simp
qed

lemma wrap_diff_greater:
  fixes L R M :: nat
  assumes "R < L" "L < M"
  shows "(R + M - L) mod M = M - (L - R)"
proof -
  have "R + M - L < M" using assms by simp
  then have "(R + M - L) mod M = R + M - L" by simp
  then show ?thesis using assms by simp
qed

text \<open>
  The positions reached in fewer than \<open>c\<close> steps from \<open>L\<close>, where \<open>c * S\<close> is the
  length of the circular interval from \<open>L\<close> to \<open>R\<close>, are exactly the positions of the
  interval that are congruent to \<open>L\<close> modulo \<open>S\<close>.
\<close>

lemma cong_dvd_diff:
  fixes a b S :: nat
  assumes "b \<le> a" "a mod S = b mod S"
  shows "S dvd a - b"
  using mod_eq_dvd_iff_nat [OF assms(1)] assms(2) by metis

lemma circle_members:
  fixes S m L R c V :: nat
  assumes S: "0 < S" and L: "L < S * m" and R: "R < S * m"
    and c: "c * S = (if L < R then R - L else S * m - (L - R))"
  shows "(V < S * m \<and> V mod S = L mod S \<and> (if L < R then L \<le> V \<and> V < R else L \<le> V \<or> V < R))
          \<longleftrightarrow> (\<exists>i<c. (L + i * S) mod (S * m) = V)"
proof
  assume a: "V < S * m \<and> V mod S = L mod S \<and> (if L < R then L \<le> V \<and> V < R else L \<le> V \<or> V < R)"
  show "\<exists>i<c. (L + i * S) mod (S * m) = V"
  proof (cases "L \<le> V")
    case True
    have "S dvd V - L" using True a by (intro cong_dvd_diff) simp_all
    then obtain i where "V - L = i * S" by (auto simp add: dvd_def mult.commute)
    then have i: "i * S = V - L" by simp
    then have v: "L + i * S = V" using True by simp
    have "V - L < (if L < R then R - L else S * m - (L - R))"
      using a True L by (auto split: if_splits)
    then have "i * S < c * S" by (simp only: i c)
    then have "i < c" by simp
    moreover have "(L + i * S) mod (S * m) = V" using v a by simp
    ultimately show ?thesis by blast
  next
    case False
    then have VL: "V < L" by simp
    then have nLR: "\<not> L < R" and VR: "V < R" using a by (auto split: if_splits)
    have "(V + S * m) mod S = L mod S" using a by simp
    moreover have "L \<le> V + S * m" using L by simp
    ultimately have "S dvd V + S * m - L" by (intro cong_dvd_diff)
    then obtain i where "V + S * m - L = i * S" by (auto simp add: dvd_def mult.commute)
    then have i: "i * S = V + S * m - L" by simp
    then have v: "L + i * S = V + S * m" using VL L by simp
    have "V + S * m - L < (if L < R then R - L else S * m - (L - R))"
      using nLR VR VL L by auto
    then have "i * S < c * S" by (simp only: i c)
    then have "i < c" by simp
    moreover have "(L + i * S) mod (S * m) = V" using v a by simp
    ultimately show ?thesis by blast
  qed
next
  assume "\<exists>i<c. (L + i * S) mod (S * m) = V"
  then obtain i where ic: "i < c" and v: "(L + i * S) mod (S * m) = V" by blast
  have M: "0 < S * m" using L by (cases "S * m") simp_all
  have VM: "V < S * m" using v M by (metis mod_less_divisor)
  have "V mod S = (L + i * S) mod S"
    using v mod_mod_cancel [of S "S * m" "L + i * S"] by simp
  then have Vmod: "V mod S = L mod S" by simp
  have lt: "i * S < c * S" using ic S by simp
  have "if L < R then L \<le> V \<and> V < R else L \<le> V \<or> V < R"
  proof (cases "L < R")
    case True
    then have "L + i * S < R" using lt c by simp
    then have "V = L + i * S" using v R by simp
    then show ?thesis using True \<open>L + i * S < R\<close> by simp
  next
    case False
    then have b: "L + i * S < S * m + R" using lt c L by simp
    show ?thesis
    proof (cases "L + i * S < S * m")
      case True
      then have "V = L + i * S" using v by simp
      then show ?thesis using False by simp
    next
      case ge: False
      then have "L + i * S = (L + i * S - S * m) + S * m" by simp
      then have "(L + i * S) mod (S * m) = (L + i * S - S * m) mod (S * m)"
        by (metis mod_add_self2)
      moreover have "L + i * S - S * m < S * m" using b R by simp
      ultimately have "V = L + i * S - S * m" using v by simp
      moreover have "L + i * S - S * m < R" using b ge by linarith
      ultimately have "V < R" by simp
      then show ?thesis using False by simp
    qed
  qed
  then show "V < S * m \<and> V mod S = L mod S \<and> (if L < R then L \<le> V \<and> V < R else L \<le> V \<or> V < R)"
    using VM Vmod by simp
qed

section \<open>Well-formed ranges\<close>

lemma sint_step_pow:
  assumes "k \<le> 30"
  shows "sint ((2 ^ k) :: int4) = 2 ^ k"
proof -
  have "(2::int) ^ k \<le> 2 ^ 30"
    using assms by (rule power_increasing) simp
  then have lt: "(2::int) ^ k < 2 ^ 31" by simp
  have p: "(0::int) \<le> 2 ^ k" by simp
  have "- (2 ^ 31) \<le> (0::int)" by simp
  then have ge: "- (2 ^ 31) \<le> (2::int) ^ k" using p by (rule order_trans)
  have "sint ((2 ^ k) :: int4) = sint (word_of_int (2 ^ k) :: int4)"
    by (simp only: word_of_int_2p)
  also have "\<dots> = signed_take_bit 31 ((2::int) ^ k)"
    by (simp only: sint_sbintrunc') simp
  also have "\<dots> = 2 ^ k"
    by (rule signed_take_bit_int_eq_self [OF ge lt])
  finally show ?thesis .
qed

lemma unat_getNext:
  assumes "wellformed n k r"
  shows "unat (fst (getNext r val)) = (unat val + 2 ^ k) mod 2 ^ n"
proof -
  from assms have m: "mask_cr r = 2 ^ n - 1" and n: "n \<le> 64" and k: "k \<le> 30"
    and s: "step r = 2 ^ k"
    by (simp_all add: wellformed_def)
  have u: "uint (fst (getNext r val)) = (uint val + 2 ^ k) mod 2 ^ n"
    using uint_getNext [OF m n, of val] sint_step_pow [OF k] s by simp
  have "int (unat (fst (getNext r val))) = uint (fst (getNext r val))"
    by simp
  also have "\<dots> = (uint val + 2 ^ k) mod 2 ^ n"
    by (fact u)
  also have "\<dots> = (int (unat val) + 2 ^ k) mod 2 ^ n"
    by simp
  also have "\<dots> = int ((unat val + 2 ^ k) mod 2 ^ n)"
    by (simp add: zmod_int)
  finally show ?thesis by (simp only: int_int_eq)
qed

lemma unat_valueAfter:
  assumes wf: "wellformed n k r" and v: "unat val < 2 ^ n"
  shows "unat (valueAfter r j val) = (unat val + j * 2 ^ k) mod 2 ^ n"
proof (induction j)
  case 0
  then show ?case using v by (simp add: valueAfter_def)
next
  case (Suc j)
  have "unat (valueAfter r (Suc j) val) = (unat (valueAfter r j val) + 2 ^ k) mod 2 ^ n"
    by (simp add: valueAfter_def unat_getNext [OF wf])
  also have "\<dots> = ((unat val + j * 2 ^ k) mod 2 ^ n + 2 ^ k) mod 2 ^ n"
    by (simp only: Suc.IH)
  also have "\<dots> = (unat val + j * 2 ^ k + 2 ^ k) mod 2 ^ n"
    by (rule mod_add_left_eq)
  finally show ?case by (simp add: algebra_simps)
qed

lemma wellformed_nat:
  assumes wf: "wellformed n k r"
  shows "unat (left r) < 2 ^ k * 2 ^ (n - k)"
    and "unat (right r) < 2 ^ k * 2 ^ (n - k)"
    and "(2::nat) ^ k dvd unat (right r) + 2 ^ k * 2 ^ (n - k) - unat (left r)"
    and "(2::nat) ^ k * 2 ^ (n - k) = 2 ^ n"
    and "nat (sint (step r)) = 2 ^ k"
    and "Suc (unat (mask_cr r)) = 2 ^ n"
proof -
  from wf have kn: "k \<le> n" and l: "uint (left r) < 2 ^ n" and r: "uint (right r) < 2 ^ n"
    and d: "2 ^ k dvd (uint (right r) - uint (left r)) mod 2 ^ n"
    and n: "n \<le> 64" and k: "k \<le> 30" and m: "mask_cr r = 2 ^ n - 1" and s: "step r = 2 ^ k"
    by (simp_all add: wellformed_def)
  show "nat (sint (step r)) = 2 ^ k"
    using sint_step_pow [OF k] s by (simp add: nat_power_eq)
  have "int (unat (mask_cr r) + 1) = uint (mask_cr r) + 1" by simp
  also have "\<dots> = 2 ^ n" using uint_pow_mask [OF n] m by simp
  also have "\<dots> = int (2 ^ n)" by simp
  finally have "unat (mask_cr r) + 1 = 2 ^ n" by (simp only: int_int_eq)
  then show "Suc (unat (mask_cr r)) = 2 ^ n" by simp
  show M: "(2::nat) ^ k * 2 ^ (n - k) = 2 ^ n"
    using kn by (simp flip: power_add)
  have "int (unat (left r)) < int (2 ^ n)" using l by simp
  then have L: "unat (left r) < 2 ^ n" by (simp only: of_nat_less_iff)
  have "int (unat (right r)) < int (2 ^ n)" using r by simp
  then have R: "unat (right r) < 2 ^ n" by (simp only: of_nat_less_iff)
  show "unat (left r) < 2 ^ k * 2 ^ (n - k)" using L M by simp
  show "unat (right r) < 2 ^ k * 2 ^ (n - k)" using R M by simp
  have kd: "(2::int) ^ k dvd 2 ^ n"
    using kn by (rule le_imp_power_dvd)
  then have "(2::int) ^ k dvd uint (right r) - uint (left r)"
    using d by (simp add: dvd_mod_iff)
  then have "(2::int) ^ k dvd uint (right r) - uint (left r) + 2 ^ n"
    using kd by (rule dvd_add)
  also have "uint (right r) - uint (left r) + 2 ^ n = int (unat (right r) + 2 ^ n - unat (left r))"
    using L by (simp add: of_nat_diff)
  finally have "int (2 ^ k) dvd int (unat (right r) + 2 ^ n - unat (left r))"
    by simp
  then have "(2::nat) ^ k dvd unat (right r) + 2 ^ n - unat (left r)"
    by (simp only: of_nat_dvd_iff)
  then show "(2::nat) ^ k dvd unat (right r) + 2 ^ k * 2 ^ (n - k) - unat (left r)"
    by (simp only: M)
qed

lemma cardinality_first_hit:
  assumes wf: "wellformed n k r"
  defines "c \<equiv> cardinality (r\<lparr>isempty := False\<rparr>)"
  shows "0 < c" and "c \<le> 2 ^ (n - k)"
    and "0 < j \<Longrightarrow> j \<le> c \<Longrightarrow>
         ((unat (left r) + j * 2 ^ k) mod 2 ^ n = unat (right r)) = (j = c)"
proof -
  let ?S = "(2::nat) ^ k" and ?m = "(2::nat) ^ (n - k)"
  let ?L = "unat (left r)" and ?R = "unat (right r)"
  let ?D = "(?R + ?S * ?m - ?L) mod (?S * ?m)"
  note nat = wellformed_nat [OF wf]
  have M: "?S * ?m = 2 ^ n" by (rule nat(4))
  have step_nat: "nat (sint (step r)) = ?S" by (rule nat(5))
  have mask_Suc: "Suc (unat (mask_cr r)) = 2 ^ n" by (rule nat(6))
  have "(?S * ?m) div ?S = ?m" by simp
  then have mdiv: "Suc (unat (mask_cr r)) div ?S = ?m" by (simp only: M mask_Suc)
  have Sdvd: "?S dvd ?D"
    using nat(3) by (simp add: dvd_mod_iff)
  have c: "c = (if ?D div ?S = 0 then ?m else ?D div ?S)"
  proof (cases "?L < ?R")
    case True
    then have D: "?D = ?R - ?L" using nat(2) wrap_diff_less [of ?L ?R "?S * ?m"] by simp
    then have "?S dvd ?R - ?L" using Sdvd by simp
    then have "?S \<le> ?R - ?L" using True by (intro dvd_imp_le) simp_all
    then have "0 < (?R - ?L) div ?S" by (simp add: div_greater_zero_iff)
    then show ?thesis
      using True D by (simp add: c_def cardinality_def word_less_nat_alt step_nat)
  next
    case False
    show ?thesis
    proof (cases "?L = ?R")
      case True
      then have "?D = 0" by simp
      then show ?thesis
        using True mdiv by (simp add: c_def cardinality_def word_less_nat_alt step_nat)
    next
      case ne: False
      with False have gt: "?R < ?L" by simp
      then have D: "?D = 2 ^ n - (?L - ?R)"
        using nat(1) wrap_diff_greater [of ?R ?L "?S * ?m"] by (simp add: M)
      have "0 < ?D" using D gt nat(1) by (simp add: M)
      then have "?S \<le> ?D" using Sdvd by (intro dvd_imp_le) simp_all
      then have "0 < ?D div ?S" by (simp add: div_greater_zero_iff)
      then show ?thesis
        using False D by (simp add: c_def cardinality_def word_less_nat_alt step_nat mask_Suc)
    qed
  qed
  have "?D < ?S * ?m" by simp
  then have "(?D div ?S) * ?S < ?m * ?S" using Sdvd by (simp add: mult.commute)
  then have dm: "?D div ?S < ?m" by simp
  show "0 < c" using c by simp
  show "c \<le> ?m" using c dm by simp
  assume j: "0 < j" "j \<le> c"
  have hit: "((?L + j * ?S) mod (?S * ?m) = ?R) = (j mod ?m = ?D div ?S)"
    by (rule step_hit [OF _ _ nat(1) nat(2) nat(3)]) simp_all
  have "(j mod ?m = ?D div ?S) = (j = c)"
  proof (cases "?D div ?S = 0")
    case True
    then have cm: "c = ?m" using c by simp
    show ?thesis
    proof (cases "j = ?m")
      case True
      then show ?thesis using cm \<open>?D div ?S = 0\<close> by simp
    next
      case False
      then have "j < ?m" using j cm by simp
      then show ?thesis using j cm True False by simp
    qed
  next
    case False
    then have "c = ?D div ?S" using c by simp
    then show ?thesis using j dm by simp
  qed
  then show "((?L + j * 2 ^ k) mod 2 ^ n = ?R) = (j = c)"
    using hit by (simp only: M)
qed

lemma iterate_wellformed:
  assumes wf: "wellformed n k r"
    and fuel: "cardinality (r\<lparr>isempty := False\<rparr>) \<le> fuel"
  shows "iterate r fuel (left r) =
           Some (map (\<lambda>i. valueAfter r i (left r)) [0..<cardinality (r\<lparr>isempty := False\<rparr>)])"
proof -
  let ?c = "cardinality (r\<lparr>isempty := False\<rparr>)"
  note nat = wellformed_nat [OF wf]
  have L: "unat (left r) < 2 ^ n" using nat(1) by (simp only: nat(4))
  have hit: "(valueAfter r (Suc i) (left r) = right r) = (Suc i = ?c)" if "i < ?c" for i
  proof -
    have "(valueAfter r (Suc i) (left r) = right r)
            = ((unat (left r) + Suc i * 2 ^ k) mod 2 ^ n = unat (right r))"
      by (simp only: word_unat_eq_iff unat_valueAfter [OF wf L])
    also have "\<dots> = (Suc i = ?c)"
      using that by (intro cardinality_first_hit(3) [OF wf]) simp_all
    finally show ?thesis .
  qed
  show ?thesis
    unfolding iterate_char
    using cardinality_first_hit(1) [OF wf] fuel hit by simp
qed

lemma distinct_wellformed:
  assumes wf: "wellformed n k r"
  shows "distinct (map (\<lambda>i. valueAfter r i (left r)) [0..<cardinality (r\<lparr>isempty := False\<rparr>)])"
proof -
  let ?c = "cardinality (r\<lparr>isempty := False\<rparr>)"
  note nat = wellformed_nat [OF wf]
  have L: "unat (left r) < 2 ^ n" using nat(1) by (simp only: nat(4))
  have cm: "?c \<le> 2 ^ (n - k)" by (rule cardinality_first_hit(2) [OF wf])
  have eq: "i = j" if "i \<le> j" "j < ?c" "valueAfter r i (left r) = valueAfter r j (left r)" for i j
  proof -
    have "unat (valueAfter r i (left r)) = unat (valueAfter r j (left r))"
      using that(3) by simp
    then have "(unat (left r) + i * 2 ^ k) mod (2 ^ k * 2 ^ (n - k))
             = (unat (left r) + j * 2 ^ k) mod (2 ^ k * 2 ^ (n - k))"
      by (simp only: unat_valueAfter [OF wf L] nat(4))
    moreover have "j < i + 2 ^ (n - k)" using that(2) cm by simp
    ultimately show ?thesis
      using that(1) by (intro step_inj [of "2 ^ k" i j "2 ^ (n - k)" "unat (left r)"]) simp_all
  qed
  have "inj_on (\<lambda>i. valueAfter r i (left r)) {0..<?c}"
  proof (rule inj_onI)
    fix i j
    assume "i \<in> {0..<?c}" "j \<in> {0..<?c}"
      and e: "valueAfter r i (left r) = valueAfter r j (left r)"
    then have i: "i < ?c" and j: "j < ?c" by simp_all
    show "i = j"
    proof (cases "i \<le> j")
      case True
      then show ?thesis using eq [OF True j e] by simp
    next
      case False
      then have "j \<le> i" by simp
      then show ?thesis using eq [OF _ i e [symmetric]] by simp
    qed
  qed
  then show ?thesis by (simp add: distinct_map)
qed

lemma wrap_length_less:
  fixes L R M :: nat
  assumes "L < M" "R < M"
  shows "((if L < R then R - L else M - (L - R)) < M) = (L \<noteq> R)"
  using assms by auto

lemma cardinality_mult:
  assumes wf: "wellformed n k r"
  shows "cardinality (r\<lparr>isempty := False\<rparr>) * 2 ^ k =
           (if unat (left r) < unat (right r) then unat (right r) - unat (left r)
            else 2 ^ k * 2 ^ (n - k) - (unat (left r) - unat (right r)))"
proof -
  let ?S = "(2::nat) ^ k" and ?m = "(2::nat) ^ (n - k)"
  let ?L = "unat (left r)" and ?R = "unat (right r)"
  note nat = wellformed_nat [OF wf]
  have step_nat: "nat (sint (step r)) = ?S" by (rule nat(5))
  have mask_Suc: "Suc (unat (mask_cr r)) = ?S * ?m" using nat(6) by (simp only: nat(4))
  show ?thesis
  proof (cases "?L < ?R")
    case True
    have "?S dvd (?R + ?S * ?m - ?L) - ?S * ?m"
      using nat(3) by (rule dvd_diff_nat) simp
    then have "?S dvd ?R - ?L" using True by simp
    then show ?thesis
      using True by (simp add: cardinality_def word_less_nat_alt step_nat)
  next
    case False
    then have "?R + ?S * ?m - ?L = ?S * ?m - (?L - ?R)" using nat(1) by simp
    then have "?S dvd ?S * ?m - (?L - ?R)" using nat(3) by simp
    then show ?thesis
      using False by (simp add: cardinality_def word_less_nat_alt step_nat mask_Suc)
  qed
qed

text \<open>
  On a well-formed range the protocol's values are exactly the elements of the range,
  and the closed form \<open>cardinality\<close> counts them.
\<close>

lemma member_values:
  assumes wf: "wellformed n k r" and ne: "\<not> isempty r"
  shows "member r v \<longleftrightarrow> v \<in> set (map (\<lambda>i. valueAfter r i (left r)) [0..<cardinality r])"
proof -
  let ?S = "(2::nat) ^ k" and ?m = "(2::nat) ^ (n - k)"
  let ?L = "unat (left r)" and ?R = "unat (right r)"
  let ?c = "cardinality (r\<lparr>isempty := False\<rparr>)"
  note nat = wellformed_nat [OF wf]
  have e: "r\<lparr>isempty := False\<rparr> = r" using ne by simp
  have L: "?L < 2 ^ n" using nat(1) by (simp only: nat(4))
  have step_nat: "nat (sint (step r)) = ?S" by (rule nat(5))
  have mask_lt: "(unat v \<le> unat (mask_cr r)) = (unat v < ?S * ?m)"
    using nat(6) by (simp only: nat(4)) arith
  have "member r v \<longleftrightarrow>
          unat v < ?S * ?m \<and> unat v mod ?S = ?L mod ?S \<and>
          (if ?L < ?R then ?L \<le> unat v \<and> unat v < ?R else ?L \<le> unat v \<or> unat v < ?R)"
    using ne by (simp add: member_def mask_lt step_nat word_le_nat_alt word_less_nat_alt)
  also have "\<dots> \<longleftrightarrow> (\<exists>i<?c. (?L + i * ?S) mod (?S * ?m) = unat v)"
    by (rule circle_members [OF _ nat(1) nat(2) cardinality_mult [OF wf]]) simp
  also have "\<dots> \<longleftrightarrow> (\<exists>i<?c. valueAfter r i (left r) = v)"
    by (simp only: word_unat_eq_iff unat_valueAfter [OF wf L] nat(4))
  also have "\<dots> \<longleftrightarrow> v \<in> set (map (\<lambda>i. valueAfter r i (left r)) [0..<cardinality r])"
    by (auto simp add: e)
  finally show ?thesis .
qed

lemma cardinality_card:
  assumes wf: "wellformed n k r"
  shows "card {v. member r v} = cardinality r"
proof (cases "isempty r")
  case True
  then show ?thesis by (simp add: member_def cardinality_def)
next
  case False
  then have e: "r\<lparr>isempty := False\<rparr> = r" by simp
  let ?vs = "map (\<lambda>i. valueAfter r i (left r)) [0..<cardinality r]"
  have d: "distinct ?vs"
    using distinct_wellformed [OF wf] by (simp only: e)
  have "{v. member r v} = set ?vs"
    using member_values [OF wf False] by blast
  then have "card {v. member r v} = card (set ?vs)" by (rule arg_cong)
  also have "\<dots> = length ?vs" using d by (rule distinct_card)
  also have "\<dots> = cardinality r" by simp
  finally show ?thesis .
qed

text \<open>
  The only well-formed range with \<open>2 ^ 64\<close> elements is the non-empty full 8-byte
  range of step 1; every other one has fewer.
\<close>

lemma cardinality_fits:
  assumes wf: "wellformed n k r"
  shows "cardinality r < 2 ^ 64 \<longleftrightarrow> \<not> (\<not> isempty r \<and> n = 64 \<and> k = 0 \<and> left r = right r)"
proof (cases "isempty r")
  case True
  then show ?thesis by (simp add: cardinality_def)
next
  case False
  then have e: "r\<lparr>isempty := False\<rparr> = r" by simp
  from wf have n: "n \<le> 64" and kn: "k \<le> n" by (simp_all add: wellformed_def)
  note nat = wellformed_nat [OF wf]
  have le: "cardinality r \<le> 2 ^ (n - k)"
    using cardinality_first_hit(2) [OF wf] by (simp only: e)
  show ?thesis
  proof (cases "n = 64 \<and> k = 0")
    case True
    have "cardinality r * 2 ^ k =
           (if unat (left r) < unat (right r) then unat (right r) - unat (left r)
            else 2 ^ k * 2 ^ (n - k) - (unat (left r) - unat (right r)))"
      using cardinality_mult [OF wf] by (simp only: e)
    then have c: "cardinality r =
           (if unat (left r) < unat (right r) then unat (right r) - unat (left r)
            else 2 ^ 64 - (unat (left r) - unat (right r)))"
      using True by simp
    have R: "unat (right r) < 2 ^ 64" using nat(2) True by simp
    have L: "unat (left r) < 2 ^ 64" using nat(1) True by simp
    have "(cardinality r < 2 ^ 64) = (unat (left r) \<noteq> unat (right r))"
      using wrap_length_less [OF L R] by (simp only: c)
    then show ?thesis using True False by (simp add: word_unat_eq_iff)
  next
    case nk: False
    then have "n - k < 64" using n kn by arith
    then have "(2::nat) ^ (n - k) < 2 ^ 64" by (simp only: power_strict_increasing_iff) 
    then show ?thesis using le nk by simp
  qed
qed

lemma getMax_step:
  assumes wf: "wellformed n k r"
  shows "(uint (getMax r) + sint (step r)) mod (uint (mask_cr r) + 1) = uint (right r)"
proof -
  from wf have n: "n \<le> 64" and m: "mask_cr r = 2 ^ n - 1" and r: "uint (right r) < 2 ^ n"
    by (simp_all add: wellformed_def)
  have M: "uint (mask_cr r) + 1 = 2 ^ n"
    using uint_pow_mask [OF n] m by simp
  have "(uint (getMax r) + sint (step r)) mod 2 ^ n
          = ((uint (right r) - sint (step r)) mod 2 ^ n + sint (step r)) mod 2 ^ n"
    by (simp only: uint_getMax [OF m n])
  also have "\<dots> = (uint (right r) - sint (step r) + sint (step r)) mod 2 ^ n"
    by (rule mod_add_left_eq)
  also have "\<dots> = uint (right r)"
    using r by simp
  finally show ?thesis by (simp only: M)
qed

text \<open>
  C3, as stated, fails on the full 8-byte range of step 1: the protocol runs the body
  \<open>2 ^ 64\<close> times there, which no value of the result type \<open>uintb\<close> of \<open>getSize\<close>
  equals.
\<close>

theorem iteration_size_counterexample:
  "wellformed 64 0 \<lparr>left = 0, right = 0, mask_cr = 0xFFFFFFFFFFFFFFFF, isempty = False, step = 1\<rparr> \<and>
   map_option length
     (protocol \<lparr>left = 0, right = 0, mask_cr = 0xFFFFFFFFFFFFFFFF, isempty = False, step = 1\<rparr>
        (2 ^ 64)) = Some (2 ^ 64) \<and>
   unat (getSize \<lparr>left = 0, right = 0, mask_cr = 0xFFFFFFFFFFFFFFFF, isempty = False, step = 1\<rparr>)
     < 2 ^ 64"
proof -
  let ?r = "\<lparr>left = 0, right = 0, mask_cr = 0xFFFFFFFFFFFFFFFF, isempty = False, step = 1\<rparr>"
  have wf: "wellformed 64 0 ?r" by (simp add: wellformed_def)
  have c: "cardinality (?r\<lparr>isempty := False\<rparr>) = 2 ^ 64" by (simp add: cardinality_def)
  have "iterate ?r (2 ^ 64) (left ?r) = Some (map (\<lambda>i. valueAfter ?r i (left ?r)) [0..<2 ^ 64])"
    using iterate_wellformed [OF wf, of "2 ^ 64"] by (simp only: c)
  then have "map_option length (protocol ?r (2 ^ 64)) = Some (2 ^ 64)"
    by (simp only: protocol_def getMin_def option.map length_map length_upt) simp
  moreover have "unat (getSize ?r) < 2 ^ 64"
    using unsigned_less [of "getSize ?r"] by simp
  ultimately show ?thesis using wf by simp
qed

text \<open>
  C3, amended. For every non-empty well-formed range other than the full 8-byte range
  of step 1, the protocol, given fuel for \<open>getSize\<close> runs of the body,
  returns exactly \<open>getSize\<close> values, which are pairwise distinct, are the elements of
  the range, and of which the first is \<open>getMin\<close>; and \<open>(getMax + step) mod (mask + 1)\<close>
  is \<open>right\<close>.
\<close>

theorem iteration_size:
  assumes wf: "wellformed n k r" and ne: "\<not> isempty r"
    and notfull: "\<not> (n = 64 \<and> k = 0 \<and> left r = right r)"
    and fuel: "unat (getSize r) \<le> fuel"
  shows "\<exists>vs. protocol r fuel = Some vs \<and> length vs = unat (getSize r) \<and> distinct vs \<and>
              hd vs = getMin r \<and> set vs = {v. member r v} \<and>
              (uint (getMax r) + sint (step r)) mod (uint (mask_cr r) + 1) = uint (right r)"
proof -
  let ?c = "cardinality (r\<lparr>isempty := False\<rparr>)"
  let ?vs = "map (\<lambda>i. valueAfter r i (left r)) [0..<?c]"
  have e: "r\<lparr>isempty := False\<rparr> = r" using ne by simp
  have fits: "cardinality r < 2 ^ 64"
    using cardinality_fits [OF wf] notfull by blast
  have "unat (getSize r) = cardinality r mod 2 ^ 64"
    by (simp add: getSize_def unat_of_nat)
  then have s: "unat (getSize r) = ?c" using fits e by simp
  have pos: "0 < ?c" by (rule cardinality_first_hit(1) [OF wf])
  have "protocol r fuel = Some ?vs"
    using iterate_wellformed [OF wf, of fuel] fuel s by (simp add: protocol_def getMin_def)
  moreover have "length ?vs = unat (getSize r)" using s by simp
  moreover have "distinct ?vs" by (rule distinct_wellformed [OF wf])
  moreover have "hd ?vs = getMin r"
    using pos by (simp add: hd_map upt_conv_Cons valueAfter_def getMin_def)
  moreover have "set ?vs = {v. member r v}"
    using member_values [OF wf ne] by (simp only: e) blast
  ultimately show ?thesis using getMax_step [OF wf] by blast
qed

theorem iteration_size_witness:
  "wellformed 32 0 \<lparr>left = 0, right = 2, mask_cr = 0xFFFFFFFF, isempty = False, step = 1\<rparr> \<and>
   getSize \<lparr>left = 0, right = 2, mask_cr = 0xFFFFFFFF, isempty = False, step = 1\<rparr> = 2 \<and>
   getMin \<lparr>left = 0, right = 2, mask_cr = 0xFFFFFFFF, isempty = False, step = 1\<rparr> = 0 \<and>
   getMax \<lparr>left = 0, right = 2, mask_cr = 0xFFFFFFFF, isempty = False, step = 1\<rparr> = 1 \<and>
   (\<exists>vs. protocol \<lparr>left = 0, right = 2, mask_cr = 0xFFFFFFFF, isempty = False, step = 1\<rparr> 2
           = Some vs \<and> length vs = 2 \<and> distinct vs \<and> hd vs = 0)"
proof -
  let ?r = "\<lparr>left = 0, right = 2, mask_cr = 0xFFFFFFFF, isempty = False, step = 1\<rparr>"
  have wf: "wellformed 32 0 ?r" by (simp add: wellformed_def)
  have ne: "\<not> isempty ?r" by simp
  have c: "cardinality ?r = 2" by (simp add: cardinality_def)
  have s: "getSize ?r = 2" by (simp add: getSize_def c)
  have notfull: "\<not> ((32::nat) = 64 \<and> (0::nat) = 0 \<and> left ?r = right ?r)" by simp
  have fuel: "unat (getSize ?r) \<le> 2" by (simp add: s)
  have "getMax ?r = 1" by (simp add: getMax_def)
  moreover have "getMin ?r = 0" by (simp add: getMin_def)
  ultimately show ?thesis
    using iteration_size [OF wf ne notfull fuel] wf s by auto
qed

text \<open>
  C4, as stated, fails for an empty range: \<open>getMin\<close> and \<open>getNext\<close> do not look at the
  empty flag and the loop tests its condition after the body, so the body runs once for
  the empty range \<open>[0, 1)\<close>.
\<close>

theorem protocol_counts_counterexample:
  "isEmpty \<lparr>left = 0, right = 1, mask_cr = 0xFF, isempty = True, step = 1\<rparr> \<and>
   protocol \<lparr>left = 0, right = 1, mask_cr = 0xFF, isempty = True, step = 1\<rparr> 10 = Some [0]"
  by (simp add: isEmpty_def protocol_def getMin_def iterate_Suc getNext_def numeral_eq_Suc
        del: iterate.simps)

text \<open>
  C4, amended. The protocol never returns without having run the body; the empty flag
  does not change what it returns; and a well-formed range with \<open>left = right\<close>, as
  every full range is, iterates exactly \<open>(mask + 1) / step\<close> times when given that much
  fuel.
\<close>

theorem protocol_counts:
  "protocol r fuel \<noteq> Some [] \<and>
   protocol (r\<lparr>isempty := e\<rparr>) fuel = protocol r fuel \<and>
   (wellformed n k r \<and> left r = right r \<and>
      (unat (mask_cr r) + 1) div nat (sint (step r)) \<le> fuel \<longrightarrow>
    map_option length (protocol r fuel) = Some ((unat (mask_cr r) + 1) div nat (sint (step r))))"
proof (intro conjI impI)
  show "protocol r fuel \<noteq> Some []"
    by (simp add: protocol_def iterate_char)
  show "protocol (r\<lparr>isempty := e\<rparr>) fuel = protocol r fuel"
    by (simp add: protocol_def getMin_def iterate_isempty)
  assume a: "wellformed n k r \<and> left r = right r \<and>
      (unat (mask_cr r) + 1) div nat (sint (step r)) \<le> fuel"
  let ?c = "cardinality (r\<lparr>isempty := False\<rparr>)"
  from a have wf: "wellformed n k r" by simp
  have c: "?c = (unat (mask_cr r) + 1) div nat (sint (step r))"
    using a by (simp add: cardinality_def)
  then have "?c \<le> fuel" using a by simp
  then have "protocol r fuel = Some (map (\<lambda>i. valueAfter r i (left r)) [0..<?c])"
    using iterate_wellformed [OF wf, of fuel] by (simp add: protocol_def getMin_def)
  then have "map_option length (protocol r fuel) = Some ?c"
    by simp
  then show "map_option length (protocol r fuel)
      = Some ((unat (mask_cr r) + 1) div nat (sint (step r)))"
    by (simp only: c)
qed

theorem protocol_counts_witness:
  "wellformed 4 0 \<lparr>left = 0, right = 0, mask_cr = 0xF, isempty = False, step = 1\<rparr> \<and>
   isFull \<lparr>left = 0, right = 0, mask_cr = 0xF, isempty = False, step = 1\<rparr> \<and>
   map_option length
     (protocol \<lparr>left = 0, right = 0, mask_cr = 0xF, isempty = False, step = 1\<rparr> 16) = Some 16 \<and>
   map_option length
     (protocol \<lparr>left = 0, right = 0, mask_cr = 0xF, isempty = True, step = 1\<rparr> 16) = Some 16"
proof -
  let ?r = "\<lparr>left = 0, right = 0, mask_cr = 0xF, isempty = False, step = 1\<rparr>"
  have wf: "wellformed 4 0 ?r" by (simp add: wellformed_def)
  have f: "isFull ?r" by (simp add: isFull_def)
  have c: "(unat (mask_cr ?r) + 1) div nat (sint (step ?r)) = 16" by simp
  note t = protocol_counts [of ?r 16 True 4 0]
  from t wf c have l: "map_option length (protocol ?r 16) = Some 16" by simp
  from t have "protocol (?r\<lparr>isempty := True\<rparr>) 16 = protocol ?r 16" by blast
  then have "map_option length
     (protocol \<lparr>left = 0, right = 0, mask_cr = 0xF, isempty = True, step = 1\<rparr> 16) = Some 16"
    using l by simp
  then show ?thesis using wf f l by simp
qed

section \<open>Prepending to a partition\<close>

lemma chain_append:
  "chain h p (as @ bs) q = (\<exists>m. chain h p as m \<and> chain h m bs q)"
  by (induction as arbitrary: p) auto

lemma chain_store_update:
  "a \<notin> set as \<Longrightarrow> chain (h(a := v)) p as q = chain h p as q"
  by (induction as arbitrary: p) auto

text \<open>
  C9. Prepending a vertex makes it the partition's \<open>startNode\<close>, sets its \<open>next\<close>
  field to the previous \<open>startNode\<close>, and sets \<open>stopNode\<close> to the vertex if it was null
  and leaves it unchanged otherwise; nothing else in the store or the partition
  changes, so that a previous chain \<open>ps\<close> that does not pass through the vertex becomes
  the chain of the vertex followed by \<open>ps\<close>. A null vertex is a fault.
\<close>

theorem partitionPrepend_vertex_result:
  "partitionPrepend_vertex h None part = Inl NullDereference \<and>
   (\<exists>h' part'. partitionPrepend_vertex h (Some v) part = Inr (h', part') \<and>
      startNode part' = Some v \<and>
      next (h' v) = startNode part \<and>
      stopNode part' = (if stopNode part = None then Some v else stopNode part) \<and>
      isDirty part' = isDirty part \<and>
      h' = h(v := (h v)\<lparr>next := startNode part\<rparr>) \<and>
      (\<forall>ps q. chain h (startNode part) ps q \<and> v \<notin> set ps \<longrightarrow>
                chain h' (startNode part') (v # ps) q))"
  by (simp add: partitionPrepend_vertex_def Let_def chain_store_update)

theorem partitionPrepend_vertex_result_witness:
  "\<exists>h' part'.
     partitionPrepend_vertex (\<lambda>a. blank) (Some 7)
       \<lparr>startNode = Some 3, stopNode = None, isDirty = False\<rparr> = Inr (h', part') \<and>
     part' = \<lparr>startNode = Some 7, stopNode = Some 7, isDirty = False\<rparr> \<and>
     next (h' 7) = Some 3 \<and>
     chain h' (startNode part') [7, 3] None"
proof -
  let ?part = "\<lparr>startNode = Some 3, stopNode = None, isDirty = False\<rparr>"
  from partitionPrepend_vertex_result [of "\<lambda>a. blank" ?part 7]
  obtain h' part' where
    r: "partitionPrepend_vertex (\<lambda>a. blank) (Some 7) ?part = Inr (h', part')"
    and a: "startNode part' = Some 7" and b: "next (h' 7) = Some 3"
    and c: "stopNode part' = Some 7" and d: "isDirty part' = False"
    and e: "\<forall>ps q. chain (\<lambda>a. blank) (startNode ?part) ps q \<and> 7 \<notin> set ps \<longrightarrow>
                   chain h' (startNode part') (7 # ps) q"
    by auto
  have "chain (\<lambda>a. blank) (startNode ?part) [3] None \<and> 7 \<notin> set [3::nat]"
    by (simp add: blank_def)
  with e have "chain h' (startNode part') [7, 3] None" by blast
  moreover have "part' = \<lparr>startNode = Some 7, stopNode = Some 7, isDirty = False\<rparr>"
    using a c d by (cases part') auto
  ultimately show ?thesis using r b by blast
qed

text \<open>
  C10. Prepending a partition \<open>head\<close> faults exactly when \<open>head.stopNode\<close> is null.
  When it is a node \<open>s\<close>, the call succeeds, writes only the \<open>next\<close> field of \<open>s\<close>,
  and links the chains: if \<open>head\<close>'s chain runs through \<open>hs\<close> to \<open>s\<close> and \<open>part\<close>'s
  previous chain is \<open>ps\<close>, neither passing through \<open>s\<close>, then the new chain of
  \<open>part\<close> is \<open>hs\<close>, \<open>s\<close>, \<open>ps\<close>.
\<close>

theorem partitionPrepend_head_safe:
  "(partitionPrepend_head h head part = Inl NullDereference \<longleftrightarrow> stopNode head = None) \<and>
   (stopNode head = Some s \<longrightarrow>
      (\<exists>h' part'. partitionPrepend_head h head part = Inr (h', part') \<and>
         h' = h(s := (h s)\<lparr>next := startNode part\<rparr>) \<and>
         startNode part' = startNode head \<and>
         stopNode part' = (if stopNode part = None then Some s else stopNode part) \<and>
         isDirty part' = isDirty part \<and>
         (\<forall>hs ps q. chain h (startNode head) hs (Some s) \<and> s \<notin> set hs \<and>
                     chain h (startNode part) ps q \<and> s \<notin> set ps \<longrightarrow>
                     chain h' (startNode part') (hs @ s # ps) q)))"
proof (intro conjI impI)
  show "(partitionPrepend_head h head part = Inl NullDereference) = (stopNode head = None)"
    by (simp add: partitionPrepend_head_def Let_def split: option.splits)
next
  assume s: "stopNode head = Some s"
  let ?h = "h(s := (h s)\<lparr>next := startNode part\<rparr>)"
  let ?p = "part\<lparr>startNode := startNode head,
                  stopNode := (if stopNode part = None then Some s else stopNode part)\<rparr>"
  have r: "partitionPrepend_head h head part = Inr (?h, ?p)"
    using s by (simp add: partitionPrepend_head_def Let_def)
  have c: "chain ?h (startNode ?p) (hs @ s # ps) q"
    if "chain h (startNode head) hs (Some s) \<and> s \<notin> set hs \<and>
        chain h (startNode part) ps q \<and> s \<notin> set ps" for hs ps q
  proof -
    have 1: "chain ?h (startNode head) hs (Some s)"
      using that by (simp add: chain_store_update)
    have 2: "chain ?h (startNode part) ps q"
      using that by (simp add: chain_store_update)
    show ?thesis
      using 1 2 by (auto simp add: chain_append)
  qed
  show "\<exists>h' part'. partitionPrepend_head h head part = Inr (h', part') \<and>
         h' = h(s := (h s)\<lparr>next := startNode part\<rparr>) \<and>
         startNode part' = startNode head \<and>
         stopNode part' = (if stopNode part = None then Some s else stopNode part) \<and>
         isDirty part' = isDirty part \<and>
         (\<forall>hs ps q. chain h (startNode head) hs (Some s) \<and> s \<notin> set hs \<and>
                     chain h (startNode part) ps q \<and> s \<notin> set ps \<longrightarrow>
                     chain h' (startNode part') (hs @ s # ps) q)"
    using r c by (intro exI [of _ ?h] exI [of _ ?p]) (auto simp del: fun_upd_apply)
qed

theorem partitionPrepend_head_safe_witness:
  "\<exists>h' part'.
     partitionPrepend_head
       ((\<lambda>a. blank)(1 := blank\<lparr>next := Some 2\<rparr>, 3 := blank\<lparr>next := Some 4\<rparr>))
       \<lparr>startNode = Some 1, stopNode = Some 2, isDirty = False\<rparr>
       \<lparr>startNode = Some 3, stopNode = Some 4, isDirty = True\<rparr> = Inr (h', part') \<and>
     part' = \<lparr>startNode = Some 1, stopNode = Some 4, isDirty = True\<rparr> \<and>
     chain h' (startNode part') [1, 2, 3, 4] None"
proof -
  let ?h = "(\<lambda>a. blank)(1 := blank\<lparr>next := Some 2\<rparr>, 3 := blank\<lparr>next := Some 4\<rparr>)"
  let ?head = "\<lparr>startNode = Some 1, stopNode = Some 2, isDirty = False\<rparr>"
  let ?part = "\<lparr>startNode = Some 3, stopNode = Some 4, isDirty = True\<rparr>"
  have s: "stopNode ?head = Some 2" by simp
  from partitionPrepend_head_safe [of ?h ?head ?part 2] s
  obtain h' part' where r: "partitionPrepend_head ?h ?head ?part = Inr (h', part')"
    and a: "startNode part' = Some 1" and b: "stopNode part' = Some 4"
    and d: "isDirty part' = True"
    and c: "\<forall>hs ps q. chain ?h (startNode ?head) hs (Some 2) \<and> 2 \<notin> set hs \<and>
                     chain ?h (startNode ?part) ps q \<and> 2 \<notin> set ps \<longrightarrow>
                     chain h' (startNode part') (hs @ 2 # ps) q"
    by auto
  have "chain ?h (startNode ?head) [1] (Some 2) \<and> 2 \<notin> set [1::nat] \<and>
        chain ?h (startNode ?part) [3, 4] None \<and> 2 \<notin> set [3, 4::nat]"
    by (simp add: blank_def)
  with c have "chain h' (startNode part') ([1] @ 2 # [3, 4]) None" by blast
  then have "chain h' (startNode part') [1, 2, 3, 4] None" by simp
  moreover have "part' = \<lparr>startNode = Some 1, stopNode = Some 4, isDirty = True\<rparr>"
    using a b d by (cases part') auto
  ultimately show ?thesis using r by blast
qed

end
